theory Spec2Isabelle
  imports Main "HOL-Library.Word"
begin

section \<open>The circular buffer of MacHRIR (cpp/CircularBuffer.cpp)\<close>

text \<open>
  A shallow embedding of \<^verbatim>\<open>machrir::CircularBuffer\<close>, executed by one thread at a
  time: an atomic load is a read of the field and an atomic store an update of it, whatever
  its memory order. \<^verbatim>\<open>size_t\<close> is a 64-bit word, so \<open>+\<close> and \<open>-\<close> wrap around as they
  do in the source; an offset into memory is the \<open>unat\<close> of such a word.
\<close>

subsection \<open>Data\<close>

type_synonym size_t = "64 word"
type_synonym uint8_t = "8 word"

text \<open>
  What the source can do other than return: \<^verbatim>\<open>throw std::bad_alloc()\<close> in the
  constructor, and the two undefined behaviours that its arithmetic can reach, a
  \<^verbatim>\<open>memcpy\<close>/\<^verbatim>\<open>memset\<close> that leaves one of its two regions and a \<^verbatim>\<open>%\<close> by zero.
\<close>

datatype error = BadAlloc | OutOfBounds | DivisionByZero

text \<open>
  The members of the class (their trailing underscore dropped). \<open>buffer\<close> is the region
  that \<^verbatim>\<open>buffer_\<close> points to, one list element per byte.
\<close>

record CircularBuffer =
  buffer :: "uint8_t list"
  capacity :: size_t
  writeIndex :: size_t
  readIndex :: size_t

subsection \<open>Memory primitives of the C library\<close>

definition PTRDIFF_MAX :: nat where
  "PTRDIFF_MAX = 2 ^ 63 - 1"

text \<open>
  \<^verbatim>\<open>posix_memalign(&p, 16, n)\<close>: the environment decides whether the request is served
  (\<open>ok\<close>) and what the fresh block holds (\<open>raw\<close>, byte by byte: the block is not
  initialised). No allocator serves a request above \<^verbatim>\<open>PTRDIFF_MAX\<close>: no object is
  that large. Below that bound the sum \<^verbatim>\<open>writeIdx + toWrite\<close> of a cursor and a count,
  both below the capacity, stays below \<open>2 ^ 64\<close>.
\<close>

definition posix_memalign :: "bool \<Rightarrow> (nat \<Rightarrow> uint8_t) \<Rightarrow> size_t \<Rightarrow> uint8_t list option" where
  "posix_memalign ok raw n =
     (if ok \<and> unat n \<le> PTRDIFF_MAX then Some (map raw [0..<unat n]) else None)"

text \<open>
  \<^verbatim>\<open>memset(dst, c, n)\<close> and \<^verbatim>\<open>memcpy(dst + doff, src + soff, n)\<close> on regions given as
  lists. Both are undefined when a range leaves its region.
\<close>

definition memset :: "uint8_t list \<Rightarrow> uint8_t \<Rightarrow> nat \<Rightarrow> error + uint8_t list" where
  "memset dst c n =
     (if n \<le> length dst then Inr (replicate n c @ drop n dst) else Inl OutOfBounds)"

definition memcpy ::
  "uint8_t list \<Rightarrow> nat \<Rightarrow> uint8_t list \<Rightarrow> nat \<Rightarrow> nat \<Rightarrow> error + uint8_t list" where
  "memcpy dst doff src soff n =
     (if doff + n \<le> length dst \<and> soff + n \<le> length src
      then Inr (take doff dst @ take n (drop soff src) @ drop (doff + n) dst)
      else Inl OutOfBounds)"

subsection \<open>Construction and reset\<close>

definition CircularBuffer_new ::
  "bool \<Rightarrow> (nat \<Rightarrow> uint8_t) \<Rightarrow> size_t \<Rightarrow> error + CircularBuffer" where
  "CircularBuffer_new ok raw cap =
     (case posix_memalign ok raw cap of
        None \<Rightarrow> Inl BadAlloc
      | Some mem \<Rightarrow>
          (case memset mem 0 (unat cap) of
             Inl e \<Rightarrow> Inl e
           | Inr zeroed \<Rightarrow>
               Inr \<lparr>buffer = zeroed, capacity = cap, writeIndex = 0, readIndex = 0\<rparr>))"

definition reset :: "CircularBuffer \<Rightarrow> error + CircularBuffer" where
  "reset cb =
     (case memset (buffer cb) 0 (unat (capacity cb)) of
        Inl e \<Rightarrow> Inl e
      | Inr zeroed \<Rightarrow> Inr (cb\<lparr>writeIndex := 0, readIndex := 0, buffer := zeroed\<rparr>))"

subsection \<open>Availability\<close>

definition availableRead :: "CircularBuffer \<Rightarrow> size_t" where
  "availableRead cb =
     (let writeIdx = writeIndex cb; readIdx = readIndex cb in
      if writeIdx \<ge> readIdx then writeIdx - readIdx
      else capacity cb - (readIdx - writeIdx))"

definition availableWrite :: "CircularBuffer \<Rightarrow> size_t" where
  "availableWrite cb =
     (let writeIdx = writeIndex cb; readIdx = readIndex cb in
      if writeIdx \<ge> readIdx then capacity cb - (writeIdx - readIdx) - 1
      else readIdx - writeIdx - 1)"

subsection \<open>Writing and reading\<close>

text \<open>
  The length of the first segment of a transfer of \<open>n\<close> bytes that starts at cursor
  \<open>idx\<close> (lines 28 and 53 of the source) and the length of what is left for the second.
\<close>

definition firstChunk :: "CircularBuffer \<Rightarrow> size_t \<Rightarrow> size_t \<Rightarrow> size_t" where
  "firstChunk cb idx n = min n (capacity cb - idx)"

definition secondChunk :: "CircularBuffer \<Rightarrow> size_t \<Rightarrow> size_t \<Rightarrow> size_t" where
  "secondChunk cb idx n = n - firstChunk cb idx n"

text \<open>
  \<^verbatim>\<open>write(data, size)\<close>: \<open>src\<close> is the region behind \<^verbatim>\<open>data\<close>. The result is the new
  state and the returned count.
\<close>

definition write_cb ::
  "CircularBuffer \<Rightarrow> uint8_t list \<Rightarrow> size_t \<Rightarrow> error + (CircularBuffer \<times> size_t)" where
  "write_cb cb src sz =
     (let available = availableWrite cb;
          toWrite = min sz available
      in if toWrite = 0 then Inr (cb, 0)
         else
           let writeIdx = writeIndex cb;
               first = firstChunk cb writeIdx toWrite
           in case memcpy (buffer cb) (unat writeIdx) src 0 (unat first) of
                Inl e \<Rightarrow> Inl e
              | Inr b1 \<Rightarrow>
                  (case (if first < toWrite
                         then memcpy b1 0 src (unat first) (unat (toWrite - first))
                         else Inr b1) of
                     Inl e \<Rightarrow> Inl e
                   | Inr b2 \<Rightarrow>
                       if capacity cb = 0 then Inl DivisionByZero
                       else Inr (cb\<lparr>buffer := b2,
                                    writeIndex := (writeIdx + toWrite) mod capacity cb\<rparr>,
                                 toWrite)))"

text \<open>
  \<^verbatim>\<open>read(data, size)\<close>: \<open>dest\<close> is the region behind \<^verbatim>\<open>data\<close> before the call. The
  result is the new state, that region after the call, and the returned count.
\<close>

definition read ::
  "CircularBuffer \<Rightarrow> uint8_t list \<Rightarrow> size_t
    \<Rightarrow> error + (CircularBuffer \<times> uint8_t list \<times> size_t)" where
  "read cb dest sz =
     (let available = availableRead cb;
          toRead = min sz available
      in if toRead = 0 then Inr (cb, dest, 0)
         else
           let readIdx = readIndex cb;
               first = firstChunk cb readIdx toRead
           in case memcpy dest 0 (buffer cb) (unat readIdx) (unat first) of
                Inl e \<Rightarrow> Inl e
              | Inr d1 \<Rightarrow>
                  (case (if first < toRead
                         then memcpy d1 (unat first) (buffer cb) 0 (unat (toRead - first))
                         else Inr d1) of
                     Inl e \<Rightarrow> Inl e
                   | Inr d2 \<Rightarrow>
                       if capacity cb = 0 then Inl DivisionByZero
                       else Inr (cb\<lparr>readIndex := (readIdx + toRead) mod capacity cb\<rparr>,
                                 d2, toRead)))"

subsection \<open>The interface as one step function\<close>

text \<open>
  The calls of the bridge (\<^verbatim>\<open>circular_buffer_write\<close>, \<^verbatim>\<open>_read\<close>, \<^verbatim>\<open>_reset\<close>,
  \<^verbatim>\<open>_available_read\<close>, \<^verbatim>\<open>_available_write\<close>), each a pass-through to the method of
  the same name, and what each hands back to its caller.
\<close>

datatype call =
    Write "uint8_t list" size_t
  | Read "uint8_t list" size_t
  | Reset
  | AvailableRead
  | AvailableWrite

datatype reply =
    Written size_t
  | Delivered "uint8_t list" size_t
  | Done
  | Available size_t

fun exec :: "call \<Rightarrow> CircularBuffer \<Rightarrow> error + (CircularBuffer \<times> reply)" where
  "exec (Write src sz) cb =
     (case write_cb cb src sz of Inl e \<Rightarrow> Inl e | Inr (cb', n) \<Rightarrow> Inr (cb', Written n))"
| "exec (Read dest sz) cb =
     (case read cb dest sz of
        Inl e \<Rightarrow> Inl e
      | Inr (cb', dest', n) \<Rightarrow> Inr (cb', Delivered dest' n))"
| "exec Reset cb = (case reset cb of Inl e \<Rightarrow> Inl e | Inr cb' \<Rightarrow> Inr (cb', Done))"
| "exec AvailableRead cb = Inr (cb, Available (availableRead cb))"
| "exec AvailableWrite cb = Inr (cb, Available (availableWrite cb))"

text \<open>A sequence of calls by one thread; it stops at the first undefined behaviour.\<close>

fun run :: "call list \<Rightarrow> CircularBuffer \<Rightarrow> error + (CircularBuffer \<times> reply list)" where
  "run [] cb = Inr (cb, [])"
| "run (c # cs) cb =
     (case exec c cb of
        Inl e \<Rightarrow> Inl e
      | Inr (cb', r) \<Rightarrow>
          (case run cs cb' of Inl e \<Rightarrow> Inl e | Inr (cb'', rs) \<Rightarrow> Inr (cb'', r # rs)))"

text \<open>The states that a constructed buffer can be in: after construction, after any call.\<close>

inductive reachable :: "CircularBuffer \<Rightarrow> bool" where
  constructed: "CircularBuffer_new ok raw cap = Inr cb \<Longrightarrow> reachable cb"
| called: "reachable cb \<Longrightarrow> exec c cb = Inr (cb', r) \<Longrightarrow> reachable cb'"

subsection \<open>Definitions used by the proofs\<close>

text \<open>
  What construction establishes and every call keeps: the region has \<open>capacity\<close> bytes,
  it is no larger than an object can be, and both cursors are below a non-zero capacity.
\<close>

definition invariant :: "CircularBuffer \<Rightarrow> bool" where
  "invariant cb =
     (length (buffer cb) = unat (capacity cb) \<and> unat (capacity cb) \<le> PTRDIFF_MAX \<and>
      (capacity cb = 0 \<or> (writeIndex cb < capacity cb \<and> readIndex cb < capacity cb)))"

text \<open>
  The region after the two \<^verbatim>\<open>memcpy\<close> calls of a write of \<open>t\<close> bytes at cursor \<open>w\<close>,
  and the caller's region after the two of a read of \<open>t\<close> bytes at cursor \<open>r\<close>.
\<close>

definition two_segment_store :: "uint8_t list \<Rightarrow> nat \<Rightarrow> uint8_t list \<Rightarrow> nat \<Rightarrow> uint8_t list" where
  "two_segment_store buf w src t =
     (if w + t \<le> length buf then take w buf @ take t src @ drop (w + t) buf
      else take (t - (length buf - w)) (drop (length buf - w) src) @
           drop (t - (length buf - w)) (take w buf @ take (length buf - w) src))"

definition two_segment_load :: "uint8_t list \<Rightarrow> uint8_t list \<Rightarrow> nat \<Rightarrow> nat \<Rightarrow> uint8_t list" where
  "two_segment_load dest buf r t =
     (if r + t \<le> length buf then take t (drop r buf) @ drop t dest
      else take (length buf - r) (drop r buf) @ take (t - (length buf - r)) buf @ drop t dest)"

text \<open>The two calls that only report.\<close>

fun observer :: "call \<Rightarrow> bool" where
  "observer AvailableRead = True"
| "observer AvailableWrite = True"
| "observer _ = False"

section \<open>Arithmetic of the cursors\<close>

text \<open>
  Under the invariant and with a capacity other than zero, no subtraction of the source
  wraps around, so both counts can be read as natural numbers.
\<close>

lemma unat_min: "unat (min (a::size_t) b) = min (unat a) (unat b)"
  by (simp add: min_def word_le_nat_alt)

lemma invariant_nat:
  assumes "invariant cb" "capacity cb \<noteq> 0"
  shows "unat (writeIndex cb) < unat (capacity cb)"
    and "unat (readIndex cb) < unat (capacity cb)"
    and "unat (capacity cb) < 2 ^ 63"
    and "length (buffer cb) = unat (capacity cb)"
  using assms by (auto simp: invariant_def word_less_nat_alt PTRDIFF_MAX_def)

lemma unat_availableRead:
  assumes "invariant cb" "capacity cb \<noteq> 0"
  shows "unat (availableRead cb) =
     (if unat (readIndex cb) \<le> unat (writeIndex cb)
      then unat (writeIndex cb) - unat (readIndex cb)
      else unat (capacity cb) - (unat (readIndex cb) - unat (writeIndex cb)))"
proof -
  note n = invariant_nat[OF assms]
  show ?thesis
  proof (cases "readIndex cb \<le> writeIndex cb")
    case True
    then show ?thesis by (simp add: availableRead_def unat_sub word_le_nat_alt)
  next
    case False
    then have lt: "writeIndex cb \<le> readIndex cb" by simp
    have "unat (readIndex cb - writeIndex cb) = unat (readIndex cb) - unat (writeIndex cb)"
      using lt by (simp add: unat_sub)
    moreover have "readIndex cb - writeIndex cb \<le> capacity cb"
      using n lt by (simp add: word_le_nat_alt unat_sub)
    ultimately show ?thesis using False
      by (simp add: availableRead_def unat_sub word_le_nat_alt)
  qed
qed

lemma unat_availableWrite:
  assumes "invariant cb" "capacity cb \<noteq> 0"
  shows "unat (availableWrite cb) = unat (capacity cb) - 1 - unat (availableRead cb)"
proof -
  note n = invariant_nat[OF assms]
  show ?thesis
  proof (cases "readIndex cb \<le> writeIndex cb")
    case True
    have d: "unat (writeIndex cb - readIndex cb) = unat (writeIndex cb) - unat (readIndex cb)"
      using True by (simp add: unat_sub)
    have "writeIndex cb - readIndex cb \<le> capacity cb"
      using n True by (simp add: word_le_nat_alt unat_sub)
    then have "unat (capacity cb - (writeIndex cb - readIndex cb)) =
       unat (capacity cb) - (unat (writeIndex cb) - unat (readIndex cb))"
      by (simp add: unat_sub d)
    moreover have "1 \<le> capacity cb - (writeIndex cb - readIndex cb)"
      using n True calculation by (simp add: word_le_nat_alt)
    ultimately show ?thesis using True
      by (simp add: availableWrite_def availableRead_def unat_sub word_le_nat_alt)
  next
    case False
    then have lt: "writeIndex cb < readIndex cb" by simp
    have d: "unat (readIndex cb - writeIndex cb) = unat (readIndex cb) - unat (writeIndex cb)"
      using lt by (simp add: unat_sub)
    have "1 \<le> readIndex cb - writeIndex cb"
      using lt d by (simp add: word_le_nat_alt word_less_nat_alt)
    moreover have "readIndex cb - writeIndex cb \<le> capacity cb"
      using n lt by (simp add: word_le_nat_alt word_less_nat_alt d)
    ultimately show ?thesis using False n
      by (simp add: availableWrite_def availableRead_def unat_sub word_le_nat_alt d)
  qed
qed

lemma availableWrite_less:
  assumes "invariant cb" "capacity cb \<noteq> 0"
  shows "availableWrite cb < capacity cb"
  using invariant_nat[OF assms] unat_availableWrite[OF assms]
  by (simp add: word_less_nat_alt)

lemma availableRead_less:
  assumes "invariant cb" "capacity cb \<noteq> 0"
  shows "availableRead cb < capacity cb"
  using invariant_nat[OF assms] unat_availableRead[OF assms]
  by (simp add: word_less_nat_alt split: if_splits)

lemma unat_firstChunk:
  assumes "invariant cb" "capacity cb \<noteq> 0" "idx < capacity cb"
  shows "unat (firstChunk cb idx n) = min (unat n) (unat (capacity cb) - unat idx)"
  using assms by (simp add: firstChunk_def unat_min unat_sub)

lemma unat_advance:
  assumes "invariant cb" "capacity cb \<noteq> 0" "idx < capacity cb" "n < capacity cb"
  shows "unat ((idx + n) mod capacity cb) = (unat idx + unat n) mod unat (capacity cb)"
proof -
  have "unat idx + unat n < 2 ^ 64"
    using assms invariant_nat(3)[OF assms(1,2)] by (simp add: word_less_nat_alt)
  then have "unat (idx + n) = unat idx + unat n"
    by (simp add: unat_add_lem[THEN iffD1])
  then show ?thesis by (simp add: unat_mod)
qed

lemma mod_wrap: "k < 2 * (c::nat) \<Longrightarrow> k mod c = (if k < c then k else k - c)"
  by (simp add: le_mod_geq)

lemma int_mod_wrap:
  fixes W R C :: nat
  assumes "W < C" "R < C"
  shows "(int W - int R) mod int C = int (if R \<le> W then W - R else C - (R - W))"
proof (cases "R \<le> W")
  case True
  then have "(int W - int R) mod int C = int W - int R"
    using assms by (intro mod_pos_pos_trivial) auto
  then show ?thesis using True by simp
next
  case False
  have "(int W - int R) mod int C = (int W - int R + int C) mod int C"
    by simp
  also have "\<dots> = int W - int R + int C"
    using assms False by (intro mod_pos_pos_trivial) auto
  finally show ?thesis using False assms by simp
qed

lemma availableRead_int:
  assumes "invariant cb" "capacity cb \<noteq> 0"
  shows "uint (availableRead cb) =
     (uint (writeIndex cb) - uint (readIndex cb)) mod uint (capacity cb)"
  unfolding uint_nat unat_availableRead[OF assms]
  using invariant_nat(1,2)[OF assms] by (rule int_mod_wrap[symmetric])

lemma availability_sum_size_t:
  "availableRead cb + availableWrite cb = capacity cb - 1"
  by (simp add: availableRead_def availableWrite_def Let_def)

section \<open>What a write and a read compute\<close>

text \<open>
  Under the invariant neither \<^verbatim>\<open>memcpy\<close> leaves the storage, and the call returns.
  The caller's region has to hold the bytes that are transferred, as the C contract of
  \<^verbatim>\<open>write(data, size)\<close> and \<^verbatim>\<open>read(data, size)\<close> demands.
\<close>

lemma write_cb_explicit:
  assumes inv: "invariant cb" and c0: "capacity cb \<noteq> 0"
    and src: "unat (min sz (availableWrite cb)) \<le> length src"
  shows "write_cb cb src sz =
     Inr (cb\<lparr>buffer := two_segment_store (buffer cb) (unat (writeIndex cb)) src
                          (unat (min sz (availableWrite cb))),
              writeIndex := (writeIndex cb + min sz (availableWrite cb)) mod capacity cb\<rparr>,
          min sz (availableWrite cb))"
proof -
  note n = invariant_nat[OF inv c0]
  define toWrite where "toWrite = min sz (availableWrite cb)"
  have wlt: "writeIndex cb < capacity cb" using inv c0 by (simp add: invariant_def)
  have tlt: "toWrite < capacity cb"
    using availableWrite_less[OF inv c0] by (auto simp: toWrite_def min_def)
  have T: "unat toWrite < unat (capacity cb)" using tlt by (simp add: word_less_nat_alt)
  have fc: "unat (firstChunk cb (writeIndex cb) toWrite) =
      min (unat toWrite) (unat (capacity cb) - unat (writeIndex cb))"
    by (rule unat_firstChunk[OF inv c0 wlt])
  show ?thesis
  proof (cases "toWrite = 0")
    case True
    have "(writeIndex cb + 0) mod capacity cb = writeIndex cb"
      using wlt by (simp add: mod_word_less)
    then show ?thesis using True n
      by (simp add: write_cb_def toWrite_def[symmetric] two_segment_store_def)
  next
    case False
    show ?thesis
    proof (cases "unat (writeIndex cb) + unat toWrite \<le> unat (capacity cb)")
      case True
      then have f: "firstChunk cb (writeIndex cb) toWrite = toWrite"
        using fc by (simp add: word_unat_eq_iff)
      show ?thesis using False True n src
        by (simp add: write_cb_def toWrite_def[symmetric] Let_def f memcpy_def
            two_segment_store_def c0)
    next
      case wrap: False
      then have f: "unat (firstChunk cb (writeIndex cb) toWrite) =
          unat (capacity cb) - unat (writeIndex cb)"
        using fc by simp
      have lt: "firstChunk cb (writeIndex cb) toWrite < toWrite"
        using wrap n(1) by (simp add: word_less_nat_alt f)
      have r: "unat (toWrite - firstChunk cb (writeIndex cb) toWrite) =
          unat toWrite - (unat (capacity cb) - unat (writeIndex cb))"
        using lt by (simp add: unat_sub f)
      show ?thesis using False wrap n src T
        by (auto simp add: write_cb_def toWrite_def[symmetric] Let_def memcpy_def f lt r
            two_segment_store_def c0)
    qed
  qed
qed

lemma read_explicit:
  assumes inv: "invariant cb" and c0: "capacity cb \<noteq> 0"
    and dst: "unat (min sz (availableRead cb)) \<le> length dest"
  shows "read cb dest sz =
     Inr (cb\<lparr>readIndex := (readIndex cb + min sz (availableRead cb)) mod capacity cb\<rparr>,
          two_segment_load dest (buffer cb) (unat (readIndex cb))
            (unat (min sz (availableRead cb))),
          min sz (availableRead cb))"
proof -
  note n = invariant_nat[OF inv c0]
  define toRead where "toRead = min sz (availableRead cb)"
  have rlt: "readIndex cb < capacity cb" using inv c0 by (simp add: invariant_def)
  have tlt: "toRead < capacity cb"
    using availableRead_less[OF inv c0] by (auto simp: toRead_def min_def)
  have T: "unat toRead < unat (capacity cb)" using tlt by (simp add: word_less_nat_alt)
  have fc: "unat (firstChunk cb (readIndex cb) toRead) =
      min (unat toRead) (unat (capacity cb) - unat (readIndex cb))"
    by (rule unat_firstChunk[OF inv c0 rlt])
  show ?thesis
  proof (cases "toRead = 0")
    case True
    have "(readIndex cb + 0) mod capacity cb = readIndex cb"
      using rlt by (simp add: mod_word_less)
    then show ?thesis using True n
      by (simp add: read_def toRead_def[symmetric] two_segment_load_def)
  next
    case False
    show ?thesis
    proof (cases "unat (readIndex cb) + unat toRead \<le> unat (capacity cb)")
      case True
      then have f: "firstChunk cb (readIndex cb) toRead = toRead"
        using fc by (simp add: word_unat_eq_iff)
      show ?thesis using False True n dst
        by (simp add: read_def toRead_def[symmetric] Let_def f memcpy_def
            two_segment_load_def c0)
    next
      case wrap: False
      then have f: "unat (firstChunk cb (readIndex cb) toRead) =
          unat (capacity cb) - unat (readIndex cb)"
        using fc by simp
      have lt: "firstChunk cb (readIndex cb) toRead < toRead"
        using wrap n(2) by (simp add: word_less_nat_alt f)
      have r: "unat (toRead - firstChunk cb (readIndex cb) toRead) =
          unat toRead - (unat (capacity cb) - unat (readIndex cb))"
        using lt by (simp add: unat_sub f)
      show ?thesis using False wrap n dst T
        by (auto simp add: read_def toRead_def[symmetric] Let_def memcpy_def f lt r
            two_segment_load_def c0)
    qed
  qed
qed

lemma write_returns_at_most_size:
  "write_cb cb src sz = Inr (cb', n) \<Longrightarrow> n \<le> sz"
  unfolding write_cb_def Let_def
  by (auto split: if_splits sum.splits)

lemma two_segment_store_length:
  "w < length buf \<Longrightarrow> t < length buf \<Longrightarrow> t \<le> length src \<Longrightarrow>
   length (two_segment_store buf w src t) = length buf"
  by (auto simp: two_segment_store_def)

lemma two_segment_store_nth:
  assumes "w < length buf" "t < length buf" "t \<le> length src" "k < length buf"
  shows "two_segment_store buf w src t ! ((w + k) mod length buf) =
     (if k < t then src ! k else buf ! ((w + k) mod length buf))"
proof -
  have m: "(w + k) mod length buf = (if w + k < length buf then w + k else w + k - length buf)"
    using assms by (intro mod_wrap) simp
  show ?thesis using assms
    by (auto simp: m two_segment_store_def nth_append min_def)
qed

lemma two_segment_load_length:
  "r < length buf \<Longrightarrow> t < length buf \<Longrightarrow> t \<le> length dest \<Longrightarrow>
   length (two_segment_load dest buf r t) = length dest"
  by (auto simp: two_segment_load_def)

lemma two_segment_load_nth:
  assumes "r < length buf" "t < length buf" "t \<le> length dest" "k < t"
  shows "two_segment_load dest buf r t ! k = buf ! ((r + k) mod length buf)"
proof -
  have m: "(r + k) mod length buf = (if r + k < length buf then r + k else r + k - length buf)"
    using assms by (intro mod_wrap) simp
  have "two_segment_load dest buf r t ! k =
      buf ! (if r + k < length buf then r + k else r + k - length buf)"
    using assms by (auto simp: two_segment_load_def nth_append min_def add.commute)
  then show ?thesis by (simp only: m)
qed

lemma two_segment_load_drop:
  assumes "r < length buf" "t < length buf" "t \<le> length dest"
  shows "drop t (two_segment_load dest buf r t) = drop t dest"
  using assms by (auto simp: two_segment_load_def)

section \<open>The invariant holds in every reachable state\<close>

lemma memcpy_length: "memcpy dst doff src soff n = Inr d \<Longrightarrow> length d = length dst"
  by (auto simp: memcpy_def split: if_splits)

lemma CircularBuffer_new_Inr:
  "CircularBuffer_new ok raw cap = Inr cb \<longleftrightarrow>
     ok \<and> unat cap \<le> PTRDIFF_MAX \<and>
     cb = \<lparr>buffer = replicate (unat cap) 0, capacity = cap, writeIndex = 0, readIndex = 0\<rparr>"
  by (auto simp: CircularBuffer_new_def posix_memalign_def memset_def)

lemma invariant_new: "CircularBuffer_new ok raw cap = Inr cb \<Longrightarrow> invariant cb"
  by (auto simp: CircularBuffer_new_Inr invariant_def word_gt_0)

lemma reset_explicit:
  "invariant cb \<Longrightarrow>
   reset cb = Inr (cb\<lparr>writeIndex := 0, readIndex := 0,
                       buffer := replicate (unat (capacity cb)) 0\<rparr>)"
  by (simp add: reset_def memset_def invariant_def)

lemma invariant_reset: "invariant cb \<Longrightarrow> reset cb = Inr cb' \<Longrightarrow> invariant cb'"
  by (auto simp: reset_explicit invariant_def word_gt_0)

lemma invariant_write:
  assumes "invariant cb" "write_cb cb src sz = Inr (cb', n)"
  shows "invariant cb'"
  using assms unfolding write_cb_def Let_def invariant_def
  by (auto split: if_splits sum.splits dest!: memcpy_length
           simp: word_mod_less_divisor word_gt_0)

lemma invariant_read:
  assumes "invariant cb" "read cb dest sz = Inr (cb', out, n)"
  shows "invariant cb'"
  using assms unfolding read_def Let_def invariant_def
  by (auto split: if_splits sum.splits simp: word_mod_less_divisor word_gt_0)

lemma invariant_exec:
  assumes "invariant cb" "exec c cb = Inr (cb', r)"
  shows "invariant cb'"
  using assms
  by (cases c) (auto split: sum.splits intro: invariant_write invariant_read invariant_reset)

lemma reachable_invariant: "reachable cb \<Longrightarrow> invariant cb"
  by (induction rule: reachable.induct) (auto intro: invariant_new invariant_exec)

lemma availableRead_after_write:
  assumes inv: "invariant cb" and c0: "capacity cb \<noteq> 0"
    and le: "n \<le> availableWrite cb"
    and cb': "cb' = cb\<lparr>buffer := b, writeIndex := (writeIndex cb + n) mod capacity cb\<rparr>"
    and len: "length b = length (buffer cb)"
  shows "invariant cb'" and "unat (availableRead cb') = unat (availableRead cb) + unat n"
proof -
  note nn = invariant_nat[OF inv c0]
  have nlt: "n < capacity cb"
    using le availableWrite_less[OF inv c0] by simp
  have wlt: "writeIndex cb < capacity cb" using inv c0 by (simp add: invariant_def)
  have adv: "unat ((writeIndex cb + n) mod capacity cb) =
      (unat (writeIndex cb) + unat n) mod unat (capacity cb)"
    by (rule unat_advance[OF inv c0 wlt nlt])
  have N: "unat n \<le> unat (capacity cb) - 1 - unat (availableRead cb)"
    using le unat_availableWrite[OF inv c0] by (simp add: word_le_nat_alt)
  have m: "(unat (writeIndex cb) + unat n) mod unat (capacity cb) =
      (if unat (writeIndex cb) + unat n < unat (capacity cb)
       then unat (writeIndex cb) + unat n
       else unat (writeIndex cb) + unat n - unat (capacity cb))"
    using nn nlt by (intro mod_wrap) (simp add: word_less_nat_alt)
  show inv': "invariant cb'"
    using inv c0 len by (simp add: cb' invariant_def word_mod_less_divisor word_gt_0)
  have c0': "capacity cb' \<noteq> 0" using c0 by (simp add: cb')
  show "unat (availableRead cb') = unat (availableRead cb) + unat n"
    unfolding unat_availableRead[OF inv' c0'] unat_availableRead[OF inv c0]
    using nn N unfolding unat_availableRead[OF inv c0]
    by (auto simp: cb' adv m split: if_splits)
qed

section \<open>Some reachable states\<close>

text \<open>
  Concrete states for the instances below: a fresh buffer of capacity 8, the same after
  a write of three bytes, after these three bytes were read again, and the buffer that
  the constructor returns for capacity 0.
\<close>

lemma replicate_eight: "replicate 8 x = [x, x, x, x, x, x, x, x]"
  by (simp add: numeral_eq_Suc)

lemma reachable_fresh8:
  "reachable \<lparr>buffer = [0, 0, 0, 0, 0, 0, 0, 0], capacity = 8, writeIndex = 0, readIndex = 0\<rparr>"
  by (rule reachable.constructed[of True "\<lambda>_. 0" 8])
     (simp add: CircularBuffer_new_def posix_memalign_def memset_def PTRDIFF_MAX_def
        replicate_eight)

lemma write_three:
  "write_cb \<lparr>buffer = [0, 0, 0, 0, 0, 0, 0, 0], capacity = 8, writeIndex = 0, readIndex = 0\<rparr>
     [1, 2, 3] 3 =
   Inr (\<lparr>buffer = [1, 2, 3, 0, 0, 0, 0, 0], capacity = 8, writeIndex = 3, readIndex = 0\<rparr>, 3)"
  by (simp add: write_cb_def availableWrite_def firstChunk_def memcpy_def)

lemma reachable_three:
  "reachable \<lparr>buffer = [1, 2, 3, 0, 0, 0, 0, 0], capacity = 8, writeIndex = 3, readIndex = 0\<rparr>"
  by (rule reachable.called[OF reachable_fresh8, of "Write [1, 2, 3] 3" _ "Written 3"])
     (simp add: write_three)

lemma reachable_drained:
  "reachable \<lparr>buffer = [1, 2, 3, 0, 0, 0, 0, 0], capacity = 8, writeIndex = 3, readIndex = 3\<rparr>"
  by (rule reachable.called[OF reachable_three, of "Read [0, 0, 0] 3" _ "Delivered [1, 2, 3] 3"])
     (simp add: read_def availableRead_def firstChunk_def memcpy_def)

lemma reachable_zero_capacity:
  "reachable \<lparr>buffer = [], capacity = 0, writeIndex = 0, readIndex = 0\<rparr>"
  by (rule reachable.constructed[of True "\<lambda>_. 0" 0])
     (simp add: CircularBuffer_new_def posix_memalign_def memset_def PTRDIFF_MAX_def)

section \<open>The claims\<close>

text \<open>
  Claim C1 (round trip), as amended to a buffer that is empty before the write.
  In every reachable state with capacity at least 2 and \<^verbatim>\<open>availableRead() == 0\<close>,
  writing \<open>N \<le> availableWrite()\<close> bytes returns \<open>N\<close>, and reading \<open>N\<close> bytes right
  after returns \<open>N\<close> and delivers exactly the written bytes, in order; the rest of the
  caller's region is untouched. Neither call is undefined.
\<close>

theorem round_trip_on_empty:
  assumes r: "reachable cb" and c2: "2 \<le> capacity cb"
    and empty: "availableRead cb = 0"
    and src: "length src = unat sz" and fits: "sz \<le> availableWrite cb"
    and dst: "unat sz \<le> length dest"
  shows "case write_cb cb src sz of
           Inl e \<Rightarrow> False
         | Inr (cb1, n) \<Rightarrow>
             n = sz \<and>
             (case read cb1 dest sz of
                Inl e \<Rightarrow> False
              | Inr (cb2, out, m) \<Rightarrow>
                  m = sz \<and> take (unat sz) out = src \<and>
                  drop (unat sz) out = drop (unat sz) dest)"
proof -
  have inv: "invariant cb" using r by (rule reachable_invariant)
  have c0: "capacity cb \<noteq> 0" using c2 by auto
  note nn = invariant_nat[OF inv c0]
  have mn: "min sz (availableWrite cb) = sz" using fits by (simp add: min_def)
  have T: "unat sz < unat (capacity cb)"
    using fits availableWrite_less[OF inv c0] by (simp add: word_less_nat_alt word_le_nat_alt)
  define b where "b = two_segment_store (buffer cb) (unat (writeIndex cb)) src (unat sz)"
  define cb1 where
    "cb1 = cb\<lparr>buffer := b, writeIndex := (writeIndex cb + sz) mod capacity cb\<rparr>"
  have W: "write_cb cb src sz = Inr (cb1, sz)"
    using write_cb_explicit[OF inv c0, of sz src] src by (simp add: mn cb1_def b_def)
  have lenb: "length b = length (buffer cb)"
    unfolding b_def using nn T src by (intro two_segment_store_length) simp_all
  have inv1: "invariant cb1" and av1: "unat (availableRead cb1) = unat (availableRead cb) + unat sz"
    using availableRead_after_write[OF inv c0 fits cb1_def lenb] by simp_all
  have c01: "capacity cb1 \<noteq> 0" using c0 by (simp add: cb1_def)
  have "availableRead cb1 = sz" using av1 empty by (simp add: word_unat_eq_iff)
  then have mn1: "min sz (availableRead cb1) = sz" by simp
  have eq: "unat (readIndex cb) = unat (writeIndex cb)"
    using empty unat_availableRead[OF inv c0] nn by (auto split: if_splits)
  define out where "out = two_segment_load dest b (unat (readIndex cb)) (unat sz)"
  have R: "read cb1 dest sz =
      Inr (cb1\<lparr>readIndex := (readIndex cb1 + sz) mod capacity cb1\<rparr>, out, sz)"
    using read_explicit[OF inv1 c01, of sz dest] dst unfolding mn1
    by (simp add: out_def cb1_def)
  have leno: "length out = length dest"
    unfolding out_def using nn T dst lenb by (intro two_segment_load_length) simp_all
  have "take (unat sz) out = src"
  proof (rule nth_equalityI)
    show "length (take (unat sz) out) = length src" using leno dst src by simp
  next
    fix k assume "k < length (take (unat sz) out)"
    then have k: "k < unat sz" by simp
    have "out ! k = b ! ((unat (readIndex cb) + k) mod length b)"
      unfolding out_def using nn T dst lenb k by (intro two_segment_load_nth) simp_all
    also have "\<dots> = src ! k"
      unfolding b_def eq lenb[unfolded b_def]
      using two_segment_store_nth[of "unat (writeIndex cb)" "buffer cb" "unat sz" src k]
        nn T src k by simp
    finally show "take (unat sz) out ! k = src ! k" using k by simp
  qed
  moreover have "drop (unat sz) out = drop (unat sz) dest"
    unfolding out_def using nn T dst lenb by (intro two_segment_load_drop) simp_all
  ultimately show ?thesis by (simp add: W R)
qed

text \<open>An instance of C1 as amended: six bytes through the drained buffer, across the wrap.\<close>

theorem round_trip_on_empty_witness:
  "reachable \<lparr>buffer = [1, 2, 3, 0, 0, 0, 0, 0], capacity = 8, writeIndex = 3, readIndex = 3\<rparr> \<and>
   (2::size_t) \<le> 8 \<and>
   availableRead
     \<lparr>buffer = [1, 2, 3, 0, 0, 0, 0, 0], capacity = 8, writeIndex = 3, readIndex = 3\<rparr> = 0 \<and>
   length [21, 22, 23, 24, 25, 26 :: uint8_t] = unat (6::size_t) \<and>
   (6::size_t) \<le> availableWrite
     \<lparr>buffer = [1, 2, 3, 0, 0, 0, 0, 0], capacity = 8, writeIndex = 3, readIndex = 3\<rparr> \<and>
   unat (6::size_t) \<le> length [0, 0, 0, 0, 0, 0, 0 :: uint8_t] \<and>
   (case write_cb
      \<lparr>buffer = [1, 2, 3, 0, 0, 0, 0, 0], capacity = 8, writeIndex = 3, readIndex = 3\<rparr>
      [21, 22, 23, 24, 25, 26] 6 of
      Inl e \<Rightarrow> False
    | Inr (cb1, n) \<Rightarrow>
        n = 6 \<and>
        (case read cb1 [0, 0, 0, 0, 0, 0, 0] 6 of
           Inl e \<Rightarrow> False
         | Inr (cb2, out, m) \<Rightarrow>
             m = 6 \<and> take (unat (6::size_t)) out = [21, 22, 23, 24, 25, 26] \<and>
             drop (unat (6::size_t)) out = drop (unat (6::size_t)) [0, 0, 0, 0, 0, 0, 0]))"
proof -
  have e: "availableRead
     \<lparr>buffer = [1, 2, 3, 0, 0, 0, 0, 0], capacity = 8, writeIndex = 3, readIndex = 3\<rparr> = 0"
    by (simp add: availableRead_def)
  have f: "(6::size_t) \<le> availableWrite
     \<lparr>buffer = [1, 2, 3, 0, 0, 0, 0, 0], capacity = 8, writeIndex = 3, readIndex = 3\<rparr>"
    by (simp add: availableWrite_def)
  have two: "(2::size_t) \<le>
     capacity \<lparr>buffer = [1, 2, 3, 0, 0, 0, 0, 0], capacity = 8, writeIndex = 3, readIndex = 3\<rparr>"
    by simp
  have s: "length [21, 22, 23, 24, 25, 26 :: uint8_t] = unat (6::size_t)" by simp
  have d: "unat (6::size_t) \<le> length [0, 0, 0, 0, 0, 0, 0 :: uint8_t]" by simp
  have two': "(2::size_t) \<le> 8" by simp
  from round_trip_on_empty[OF reachable_drained two e s f d] reachable_drained e f s d two'
  show ?thesis by (intro conjI)
qed

text \<open>
  Claim C1 as stated fails on a buffer that holds bytes: after \<open>[1, 2, 3]\<close> was
  written, writing \<open>[8, 9]\<close> (two bytes, with four free) and reading two bytes delivers
  \<open>[1, 2]\<close>.
\<close>

theorem round_trip_counterexample:
  "reachable \<lparr>buffer = [1, 2, 3, 0, 0, 0, 0, 0], capacity = 8, writeIndex = 3, readIndex = 0\<rparr> \<and>
   (2::size_t) \<le> 8 \<and>
   (2::size_t) \<le> availableWrite
     \<lparr>buffer = [1, 2, 3, 0, 0, 0, 0, 0], capacity = 8, writeIndex = 3, readIndex = 0\<rparr> \<and>
   write_cb \<lparr>buffer = [1, 2, 3, 0, 0, 0, 0, 0], capacity = 8, writeIndex = 3, readIndex = 0\<rparr>
     [8, 9] 2 =
     Inr (\<lparr>buffer = [1, 2, 3, 8, 9, 0, 0, 0], capacity = 8, writeIndex = 5, readIndex = 0\<rparr>, 2) \<and>
   read \<lparr>buffer = [1, 2, 3, 8, 9, 0, 0, 0], capacity = 8, writeIndex = 5, readIndex = 0\<rparr>
     [0, 0] 2 =
     Inr (\<lparr>buffer = [1, 2, 3, 8, 9, 0, 0, 0], capacity = 8, writeIndex = 5, readIndex = 2\<rparr>,
          [1, 2], 2) \<and>
   [1, 2] \<noteq> [8, 9 :: uint8_t]"
proof (intro conjI)
  show "reachable
     \<lparr>buffer = [1, 2, 3, 0, 0, 0, 0, 0], capacity = 8, writeIndex = 3, readIndex = 0\<rparr>"
    by (rule reachable_three)
  show "(2::size_t) \<le> 8" by simp
  show "(2::size_t) \<le> availableWrite
     \<lparr>buffer = [1, 2, 3, 0, 0, 0, 0, 0], capacity = 8, writeIndex = 3, readIndex = 0\<rparr>"
    by (simp add: availableWrite_def)
  show "write_cb \<lparr>buffer = [1, 2, 3, 0, 0, 0, 0, 0], capacity = 8, writeIndex = 3, readIndex = 0\<rparr>
     [8, 9] 2 =
     Inr (\<lparr>buffer = [1, 2, 3, 8, 9, 0, 0, 0], capacity = 8, writeIndex = 5, readIndex = 0\<rparr>, 2)"
    by (simp add: write_cb_def availableWrite_def firstChunk_def memcpy_def)
  show "read \<lparr>buffer = [1, 2, 3, 8, 9, 0, 0, 0], capacity = 8, writeIndex = 5, readIndex = 0\<rparr>
     [0, 0] 2 =
     Inr (\<lparr>buffer = [1, 2, 3, 8, 9, 0, 0, 0], capacity = 8, writeIndex = 5, readIndex = 2\<rparr>,
          [1, 2], 2)"
    by (simp add: read_def availableRead_def firstChunk_def memcpy_def)
  show "[1, 2] \<noteq> [8, 9 :: uint8_t]" by simp
qed

text \<open>
  Claim C2 (saturation). In every reachable state with capacity at least 2, a
  \<^verbatim>\<open>write(data, size)\<close> with \<open>size > availableWrite()\<close> is defined and returns
  \<^verbatim>\<open>availableWrite()\<close>; the storage keeps its length, the read cursor keeps its value,
  and the storage changes exactly at the \<^verbatim>\<open>availableWrite()\<close> positions that follow the
  write cursor circularly, which receive the first bytes of \<open>data\<close> in order. Every other
  position keeps its byte. Whatever the state, a write that returns returns at most
  \<open>size\<close>.
\<close>

theorem write_saturates:
  "(reachable cb \<and> 2 \<le> capacity cb \<and> availableWrite cb < sz \<and> unat sz \<le> length src \<longrightarrow>
      (case write_cb cb src sz of
         Inl e \<Rightarrow> False
       | Inr (cb', n) \<Rightarrow>
           n = availableWrite cb \<and> 0 \<le> n \<and> n \<le> sz \<and>
           capacity cb' = capacity cb \<and> readIndex cb' = readIndex cb \<and>
           length (buffer cb') = unat (capacity cb) \<and>
           (\<forall>k < unat (capacity cb).
              buffer cb' ! ((unat (writeIndex cb) + k) mod unat (capacity cb)) =
                (if k < unat (availableWrite cb) then src ! k
                 else buffer cb ! ((unat (writeIndex cb) + k) mod unat (capacity cb)))))) \<and>
   (\<forall>cb' n. write_cb cb src sz = Inr (cb', n) \<longrightarrow> 0 \<le> n \<and> n \<le> sz)"
proof (intro conjI impI allI)
  assume a: "reachable cb \<and> 2 \<le> capacity cb \<and> availableWrite cb < sz \<and> unat sz \<le> length src"
  have inv: "invariant cb" using a by (simp add: reachable_invariant)
  have c0: "capacity cb \<noteq> 0" using a by auto
  note nn = invariant_nat[OF inv c0]
  have mn: "min sz (availableWrite cb) = availableWrite cb" using a by (auto simp: min_def)
  have le: "availableWrite cb \<le> sz" using a by (auto intro: less_imp_le)
  have T: "unat (availableWrite cb) < unat (capacity cb)"
    using availableWrite_less[OF inv c0] by (simp add: word_less_nat_alt)
  have S: "unat (availableWrite cb) \<le> length src"
    using a by (simp add: word_less_nat_alt)
  have W: "write_cb cb src sz =
     Inr (cb\<lparr>buffer := two_segment_store (buffer cb) (unat (writeIndex cb)) src
                          (unat (availableWrite cb)),
              writeIndex := (writeIndex cb + availableWrite cb) mod capacity cb\<rparr>,
          availableWrite cb)"
    using write_cb_explicit[OF inv c0, of sz src] S by (simp add: mn)
  have len: "length (two_segment_store (buffer cb) (unat (writeIndex cb)) src
                          (unat (availableWrite cb))) = unat (capacity cb)"
    using two_segment_store_length[of "unat (writeIndex cb)" "buffer cb"
        "unat (availableWrite cb)" src] nn T S by simp
  have nth: "\<forall>k < unat (capacity cb).
      two_segment_store (buffer cb) (unat (writeIndex cb)) src (unat (availableWrite cb)) !
        ((unat (writeIndex cb) + k) mod unat (capacity cb)) =
      (if k < unat (availableWrite cb) then src ! k
       else buffer cb ! ((unat (writeIndex cb) + k) mod unat (capacity cb)))"
    using two_segment_store_nth[of "unat (writeIndex cb)" "buffer cb"
        "unat (availableWrite cb)" src] nn T S by simp
  show "case write_cb cb src sz of
         Inl e \<Rightarrow> False
       | Inr (cb', n) \<Rightarrow>
           n = availableWrite cb \<and> 0 \<le> n \<and> n \<le> sz \<and>
           capacity cb' = capacity cb \<and> readIndex cb' = readIndex cb \<and>
           length (buffer cb') = unat (capacity cb) \<and>
           (\<forall>k < unat (capacity cb).
              buffer cb' ! ((unat (writeIndex cb) + k) mod unat (capacity cb)) =
                (if k < unat (availableWrite cb) then src ! k
                 else buffer cb ! ((unat (writeIndex cb) + k) mod unat (capacity cb))))"
    using le len nth by (simp add: W)
next
  fix cb' n assume "write_cb cb src sz = Inr (cb', n)"
  then show "n \<le> sz" by (rule write_returns_at_most_size)
qed simp

text \<open>An instance of C2: six bytes offered where four fit.\<close>

theorem write_saturates_witness:
  "reachable \<lparr>buffer = [1, 2, 3, 0, 0, 0, 0, 0], capacity = 8, writeIndex = 3, readIndex = 0\<rparr> \<and>
   (2::size_t) \<le> 8 \<and>
   availableWrite
     \<lparr>buffer = [1, 2, 3, 0, 0, 0, 0, 0], capacity = 8, writeIndex = 3, readIndex = 0\<rparr> < 6 \<and>
   unat (6::size_t) \<le> length [21, 22, 23, 24, 25, 26 :: uint8_t] \<and>
   (case write_cb
      \<lparr>buffer = [1, 2, 3, 0, 0, 0, 0, 0], capacity = 8, writeIndex = 3, readIndex = 0\<rparr>
      [21, 22, 23, 24, 25, 26] 6 of
      Inl e \<Rightarrow> False
    | Inr (cb', n) \<Rightarrow> n = 4 \<and> n \<le> 6 \<and> length (buffer cb') = 8 \<and> readIndex cb' = 0)"
proof -
  have a: "availableWrite
     \<lparr>buffer = [1, 2, 3, 0, 0, 0, 0, 0], capacity = 8, writeIndex = 3, readIndex = 0\<rparr> = 4"
    by (simp add: availableWrite_def)
  have h: "reachable
      \<lparr>buffer = [1, 2, 3, 0, 0, 0, 0, 0], capacity = 8, writeIndex = 3, readIndex = 0\<rparr> \<and>
    2 \<le> capacity
      \<lparr>buffer = [1, 2, 3, 0, 0, 0, 0, 0], capacity = 8, writeIndex = 3, readIndex = 0\<rparr> \<and>
    availableWrite
      \<lparr>buffer = [1, 2, 3, 0, 0, 0, 0, 0], capacity = 8, writeIndex = 3, readIndex = 0\<rparr> < 6 \<and>
    unat (6::size_t) \<le> length [21, 22, 23, 24, 25, 26 :: uint8_t]"
    using reachable_three by (simp add: a)
  have c: "case write_cb
      \<lparr>buffer = [1, 2, 3, 0, 0, 0, 0, 0], capacity = 8, writeIndex = 3, readIndex = 0\<rparr>
      [21, 22, 23, 24, 25, 26] 6 of
      Inl e \<Rightarrow> False
    | Inr (cb', n) \<Rightarrow> n = 4 \<and> n \<le> 6 \<and> length (buffer cb') = 8 \<and> readIndex cb' = 0"
    using write_saturates[THEN conjunct1, rule_format, OF h]
    by (simp add: a split: sum.splits prod.splits)
  show ?thesis using h c by (simp add: a)
qed

text \<open>
  Claim C3 (cursor invariant). In every reachable state of a buffer with capacity at
  least 1, both cursors are below the capacity, and the number of stored bytes, which is
  \<open>(writeCursor - readCursor) mod capacity\<close> over the integers and is what
  \<^verbatim>\<open>availableRead()\<close> returns, lies between 0 and \<open>capacity - 1\<close>; it never equals the
  capacity.
\<close>

theorem cursors_in_range:
  assumes "reachable cb" "1 \<le> capacity cb"
  shows "0 \<le> writeIndex cb \<and> writeIndex cb < capacity cb \<and>
         0 \<le> readIndex cb \<and> readIndex cb < capacity cb \<and>
         uint (availableRead cb) =
           (uint (writeIndex cb) - uint (readIndex cb)) mod uint (capacity cb) \<and>
         0 \<le> (uint (writeIndex cb) - uint (readIndex cb)) mod uint (capacity cb) \<and>
         (uint (writeIndex cb) - uint (readIndex cb)) mod uint (capacity cb)
           \<le> uint (capacity cb) - 1 \<and>
         (uint (writeIndex cb) - uint (readIndex cb)) mod uint (capacity cb)
           \<noteq> uint (capacity cb)"
proof -
  have inv: "invariant cb" using assms(1) by (rule reachable_invariant)
  have c0: "capacity cb \<noteq> 0" using assms(2) by auto
  have pos: "0 < uint (capacity cb)" using c0 by (simp add: uint_nat unat_gt_0 del: of_nat_unat)
  have lt: "(uint (writeIndex cb) - uint (readIndex cb)) mod uint (capacity cb)
      < uint (capacity cb)"
    using pos by (rule pos_mod_bound)
  have ge: "0 \<le> (uint (writeIndex cb) - uint (readIndex cb)) mod uint (capacity cb)"
    using pos by (rule pos_mod_sign)
  show ?thesis
    using inv c0 lt ge availableRead_int[OF inv c0] by (simp add: invariant_def)
qed

text \<open>An instance of C3: the buffer of capacity 8 that holds three bytes.\<close>

theorem cursors_in_range_witness:
  "reachable \<lparr>buffer = [1, 2, 3, 0, 0, 0, 0, 0], capacity = 8, writeIndex = 3, readIndex = 0\<rparr> \<and>
   (1::size_t) \<le> 8 \<and> (3::size_t) < 8 \<and> (0::size_t) < 8 \<and>
   uint (availableRead
     \<lparr>buffer = [1, 2, 3, 0, 0, 0, 0, 0], capacity = 8, writeIndex = 3, readIndex = 0\<rparr>)
     = (3 - 0) mod 8 \<and>
   ((3::int) - 0) mod 8 \<le> 8 - 1"
  using cursors_in_range[OF reachable_three] reachable_three by simp

text \<open>
  Claim C4 (accounting), as amended. In every reachable state of a buffer with capacity
  at least 1, \<^verbatim>\<open>availableRead()\<close> is \<open>(writeCursor - readCursor) mod capacity\<close>,
  \<^verbatim>\<open>availableWrite()\<close> is \<open>capacity - 1 - availableRead()\<close>, and the two add up to
  \<open>capacity - 1\<close>, all over the integers.
\<close>

theorem availability_accounting:
  assumes "reachable cb" "1 \<le> capacity cb"
  shows "uint (availableRead cb) =
           (uint (writeIndex cb) - uint (readIndex cb)) mod uint (capacity cb) \<and>
         uint (availableWrite cb) =
           uint (capacity cb) - 1 - uint (availableRead cb) \<and>
         uint (availableRead cb) + uint (availableWrite cb) =
           uint (capacity cb) - 1"
proof -
  have inv: "invariant cb" using assms(1) by (rule reachable_invariant)
  have c0: "capacity cb \<noteq> 0" using assms(2) by auto
  have "unat (availableRead cb) < unat (capacity cb)"
    using availableRead_less[OF inv c0] by (simp add: word_less_nat_alt)
  then have "int (unat (availableWrite cb)) =
      int (unat (capacity cb)) - 1 - int (unat (availableRead cb))"
    using unat_availableWrite[OF inv c0] by arith
  then have "uint (availableWrite cb) = uint (capacity cb) - 1 - uint (availableRead cb)"
    by (simp only: uint_nat)
  then show ?thesis
    using availableRead_int[OF inv c0] by simp
qed

text \<open>An instance of C4 as amended: three bytes stored and four free in a buffer of 8.\<close>

theorem availability_accounting_witness:
  "reachable \<lparr>buffer = [1, 2, 3, 0, 0, 0, 0, 0], capacity = 8, writeIndex = 3, readIndex = 0\<rparr> \<and>
   (1::size_t) \<le> 8 \<and>
   uint (availableRead
     \<lparr>buffer = [1, 2, 3, 0, 0, 0, 0, 0], capacity = 8, writeIndex = 3, readIndex = 0\<rparr>) +
   uint (availableWrite
     \<lparr>buffer = [1, 2, 3, 0, 0, 0, 0, 0], capacity = 8, writeIndex = 3, readIndex = 0\<rparr>)
     = 8 - 1"
  using availability_accounting[OF reachable_three] reachable_three by simp

text \<open>
  Claim C4 as stated, for every reachable state, fails for the buffer of capacity 0,
  which the constructor returns: \<^verbatim>\<open>capacity_ - (writeIdx - readIdx) - 1\<close> wraps around,
  \<^verbatim>\<open>availableWrite()\<close> is \<open>2 ^ 64 - 1\<close>, and \<open>capacity - 1\<close> is \<open>-1\<close>. Only modulo
  \<open>2 ^ 64\<close>, as \<^verbatim>\<open>size_t\<close> computes, do the two sides agree there.
\<close>

theorem availability_accounting_counterexample:
  "reachable \<lparr>buffer = [], capacity = 0, writeIndex = 0, readIndex = 0\<rparr> \<and>
   uint (availableRead \<lparr>buffer = [], capacity = 0, writeIndex = 0, readIndex = 0\<rparr>) = 0 \<and>
   uint (availableWrite \<lparr>buffer = [], capacity = 0, writeIndex = 0, readIndex = 0\<rparr>)
     = 18446744073709551615 \<and>
   uint (availableWrite \<lparr>buffer = [], capacity = 0, writeIndex = 0, readIndex = 0\<rparr>) \<noteq>
     uint (capacity \<lparr>buffer = [], capacity = 0, writeIndex = 0, readIndex = 0\<rparr>) - 1 -
     uint (availableRead \<lparr>buffer = [], capacity = 0, writeIndex = 0, readIndex = 0\<rparr>) \<and>
   uint (availableRead \<lparr>buffer = [], capacity = 0, writeIndex = 0, readIndex = 0\<rparr>) +
   uint (availableWrite \<lparr>buffer = [], capacity = 0, writeIndex = 0, readIndex = 0\<rparr>) \<noteq>
     uint (capacity \<lparr>buffer = [], capacity = 0, writeIndex = 0, readIndex = 0\<rparr>) - 1"
  using reachable_zero_capacity
  by (simp add: availableRead_def availableWrite_def unsigned_minus_1_eq_mask
      mask_eq_exp_minus_1)

text \<open>
  Claim C5 (degenerate capacities): the code at capacity 0. The constructor accepts
  capacity 0 and returns a buffer with no storage. There \<^verbatim>\<open>availableWrite()\<close> is
  \<open>2 ^ 64 - 1\<close>, not 0, since the subtraction in \<^verbatim>\<open>size_t\<close> wraps around, and a write of
  one byte does not return 0: its first segment is empty and its second
  \<^verbatim>\<open>memcpy\<close> copies the byte past the end of the empty storage.
\<close>

theorem capacity_zero_overruns:
  "CircularBuffer_new True raw 0 =
     Inr \<lparr>buffer = [], capacity = 0, writeIndex = 0, readIndex = 0\<rparr> \<and>
   availableWrite \<lparr>buffer = [], capacity = 0, writeIndex = 0, readIndex = 0\<rparr>
     = 18446744073709551615 \<and>
   write_cb \<lparr>buffer = [], capacity = 0, writeIndex = 0, readIndex = 0\<rparr> [b] 1
     = Inl OutOfBounds"
  by (simp add: CircularBuffer_new_def posix_memalign_def memset_def PTRDIFF_MAX_def
      availableWrite_def write_cb_def firstChunk_def memcpy_def)

text \<open>
  At capacity 1 the buffer is degenerate and safe: both cursors stay 0, nothing is available
  either way, and every write and every read returns 0 and leaves the state as it was.
\<close>

lemma capacity_one_holds_nothing:
  assumes "reachable cb" "capacity cb = 1"
  shows "availableWrite cb = 0" and "availableRead cb = 0"
    and "write_cb cb src sz = Inr (cb, 0)" and "read cb dest sz = Inr (cb, dest, 0)"
proof -
  have inv: "invariant cb" using assms(1) by (rule reachable_invariant)
  have "unat (writeIndex cb) < 1" "unat (readIndex cb) < 1"
    using invariant_nat(1,2)[OF inv] assms(2) by simp_all
  then have z: "writeIndex cb = 0" "readIndex cb = 0" by (simp_all add: unat_eq_0)
  show w: "availableWrite cb = 0" and r: "availableRead cb = 0"
    using z assms(2) by (simp_all add: availableWrite_def availableRead_def)
  show "write_cb cb src sz = Inr (cb, 0)" by (simp add: write_cb_def w)
  show "read cb dest sz = Inr (cb, dest, 0)" by (simp add: read_def r)
qed

text \<open>
  Claim C6 (wrap-around at capacity 8). A fresh buffer of capacity 8 takes six bytes and
  gives them back, which leaves both cursors at 6. A write of five bytes then has a
  first segment of 2 bytes and a second of 3: it puts \<open>b1, b2\<close> at offsets 6 and 7 and
  \<open>b3, b4, b5\<close> at offsets 0 to 2, and returns 5. A read of five bytes then delivers
  \<open>b1, \<dots>, b5\<close> in this order.
\<close>

theorem wrap_around_capacity_8:
  "CircularBuffer_new True raw 8 =
     Inr \<lparr>buffer = [0, 0, 0, 0, 0, 0, 0, 0], capacity = 8, writeIndex = 0, readIndex = 0\<rparr> \<and>
   write_cb \<lparr>buffer = [0, 0, 0, 0, 0, 0, 0, 0], capacity = 8, writeIndex = 0, readIndex = 0\<rparr>
     [a1, a2, a3, a4, a5, a6] 6 =
     Inr (\<lparr>buffer = [a1, a2, a3, a4, a5, a6, 0, 0], capacity = 8,
            writeIndex = 6, readIndex = 0\<rparr>, 6) \<and>
   read \<lparr>buffer = [a1, a2, a3, a4, a5, a6, 0, 0], capacity = 8, writeIndex = 6, readIndex = 0\<rparr>
     [y1, y2, y3, y4, y5, y6] 6 =
     Inr (\<lparr>buffer = [a1, a2, a3, a4, a5, a6, 0, 0], capacity = 8,
            writeIndex = 6, readIndex = 6\<rparr>, [a1, a2, a3, a4, a5, a6], 6) \<and>
   firstChunk
     \<lparr>buffer = [a1, a2, a3, a4, a5, a6, 0, 0], capacity = 8, writeIndex = 6, readIndex = 6\<rparr>
     6 5 = 2 \<and>
   secondChunk
     \<lparr>buffer = [a1, a2, a3, a4, a5, a6, 0, 0], capacity = 8, writeIndex = 6, readIndex = 6\<rparr>
     6 5 = 3 \<and>
   write_cb
     \<lparr>buffer = [a1, a2, a3, a4, a5, a6, 0, 0], capacity = 8, writeIndex = 6, readIndex = 6\<rparr>
     [b1, b2, b3, b4, b5] 5 =
     Inr (\<lparr>buffer = [b3, b4, b5, a4, a5, a6, b1, b2], capacity = 8,
            writeIndex = 3, readIndex = 6\<rparr>, 5) \<and>
   read \<lparr>buffer = [b3, b4, b5, a4, a5, a6, b1, b2], capacity = 8, writeIndex = 3, readIndex = 6\<rparr>
     [z1, z2, z3, z4, z5] 5 =
     Inr (\<lparr>buffer = [b3, b4, b5, a4, a5, a6, b1, b2], capacity = 8,
            writeIndex = 3, readIndex = 3\<rparr>, [b1, b2, b3, b4, b5], 5)"
proof (intro conjI)
  show "CircularBuffer_new True raw 8 =
     Inr \<lparr>buffer = [0, 0, 0, 0, 0, 0, 0, 0], capacity = 8, writeIndex = 0, readIndex = 0\<rparr>"
    by (simp add: CircularBuffer_new_def posix_memalign_def memset_def PTRDIFF_MAX_def
        replicate_eight)
  show "write_cb \<lparr>buffer = [0, 0, 0, 0, 0, 0, 0, 0], capacity = 8, writeIndex = 0, readIndex = 0\<rparr>
     [a1, a2, a3, a4, a5, a6] 6 =
     Inr (\<lparr>buffer = [a1, a2, a3, a4, a5, a6, 0, 0], capacity = 8,
            writeIndex = 6, readIndex = 0\<rparr>, 6)"
    by (simp add: write_cb_def availableWrite_def firstChunk_def memcpy_def)
  show "read \<lparr>buffer = [a1, a2, a3, a4, a5, a6, 0, 0], capacity = 8, writeIndex = 6, readIndex = 0\<rparr>
     [y1, y2, y3, y4, y5, y6] 6 =
     Inr (\<lparr>buffer = [a1, a2, a3, a4, a5, a6, 0, 0], capacity = 8,
            writeIndex = 6, readIndex = 6\<rparr>, [a1, a2, a3, a4, a5, a6], 6)"
    by (simp add: read_def availableRead_def firstChunk_def memcpy_def)
  show "firstChunk
     \<lparr>buffer = [a1, a2, a3, a4, a5, a6, 0, 0], capacity = 8, writeIndex = 6, readIndex = 6\<rparr>
     6 5 = 2"
    by (simp add: firstChunk_def)
  show "secondChunk
     \<lparr>buffer = [a1, a2, a3, a4, a5, a6, 0, 0], capacity = 8, writeIndex = 6, readIndex = 6\<rparr>
     6 5 = 3"
    by (simp add: secondChunk_def firstChunk_def)
  show "write_cb
     \<lparr>buffer = [a1, a2, a3, a4, a5, a6, 0, 0], capacity = 8, writeIndex = 6, readIndex = 6\<rparr>
     [b1, b2, b3, b4, b5] 5 =
     Inr (\<lparr>buffer = [b3, b4, b5, a4, a5, a6, b1, b2], capacity = 8,
            writeIndex = 3, readIndex = 6\<rparr>, 5)"
    by (simp add: write_cb_def availableWrite_def firstChunk_def memcpy_def)
  show "read \<lparr>buffer = [b3, b4, b5, a4, a5, a6, b1, b2], capacity = 8, writeIndex = 3, readIndex = 6\<rparr>
     [z1, z2, z3, z4, z5] 5 =
     Inr (\<lparr>buffer = [b3, b4, b5, a4, a5, a6, b1, b2], capacity = 8,
            writeIndex = 3, readIndex = 3\<rparr>, [b1, b2, b3, b4, b5], 5)"
    by (simp add: read_def availableRead_def firstChunk_def memcpy_def)
qed

text \<open>
  Claim C7 (zero transfer). When \<^verbatim>\<open>min(size, available)\<close> is zero, that is, for a
  read when \<^verbatim>\<open>availableRead()\<close> or \<open>size\<close> is 0 and for a write when
  \<^verbatim>\<open>availableWrite()\<close> or \<open>size\<close> is 0, the call returns 0 and the state after it is the
  state before it: cursors, capacity and every byte of storage. A read leaves the caller's
  region as it was. This holds in every state.
\<close>

theorem zero_transfer_is_noop:
  "(availableRead cb = 0 \<or> sz = 0 \<longrightarrow> read cb dest sz = Inr (cb, dest, 0)) \<and>
   (availableWrite cb = 0 \<or> sz = 0 \<longrightarrow> write_cb cb src sz = Inr (cb, 0)) \<and>
   (min sz (availableRead cb) = 0 \<longleftrightarrow> availableRead cb = 0 \<or> sz = 0) \<and>
   (min sz (availableWrite cb) = 0 \<longleftrightarrow> availableWrite cb = 0 \<or> sz = 0)"
  by (auto simp: read_def write_cb_def min_def)

text \<open>
  Instances of C7: a read from an empty buffer, a write to a full one, and a write of
  size 0.
\<close>

theorem zero_transfer_is_noop_witness:
  "availableRead \<lparr>buffer = [5, 6, 7, 0], capacity = 4, writeIndex = 3, readIndex = 3\<rparr> = 0 \<and>
   read \<lparr>buffer = [5, 6, 7, 0], capacity = 4, writeIndex = 3, readIndex = 3\<rparr> [9, 9] 2 =
     Inr (\<lparr>buffer = [5, 6, 7, 0], capacity = 4, writeIndex = 3, readIndex = 3\<rparr>, [9, 9], 0) \<and>
   availableWrite \<lparr>buffer = [5, 6, 7, 0], capacity = 4, writeIndex = 3, readIndex = 0\<rparr> = 0 \<and>
   write_cb \<lparr>buffer = [5, 6, 7, 0], capacity = 4, writeIndex = 3, readIndex = 0\<rparr> [9, 9] 2 =
     Inr (\<lparr>buffer = [5, 6, 7, 0], capacity = 4, writeIndex = 3, readIndex = 0\<rparr>, 0) \<and>
   write_cb \<lparr>buffer = [5, 6, 7, 0], capacity = 4, writeIndex = 3, readIndex = 3\<rparr> [9, 9] 0 =
     Inr (\<lparr>buffer = [5, 6, 7, 0], capacity = 4, writeIndex = 3, readIndex = 3\<rparr>, 0)"
proof -
  have e: "availableRead
      \<lparr>buffer = [5, 6, 7, 0], capacity = 4, writeIndex = 3, readIndex = 3\<rparr> = 0"
    by (simp add: availableRead_def)
  have f: "availableWrite
      \<lparr>buffer = [5, 6, 7, 0], capacity = 4, writeIndex = 3, readIndex = 0\<rparr> = 0"
    by (simp add: availableWrite_def)
  show ?thesis
    using e f
      zero_transfer_is_noop[where sz = 2 and dest = "[9, 9]" and
        cb = "\<lparr>buffer = [5, 6, 7, 0], capacity = 4, writeIndex = 3, readIndex = 3\<rparr>"]
      zero_transfer_is_noop[where sz = 2 and src = "[9, 9]" and
        cb = "\<lparr>buffer = [5, 6, 7, 0], capacity = 4, writeIndex = 3, readIndex = 0\<rparr>"]
      zero_transfer_is_noop[where sz = 0 and src = "[9, 9]" and
        cb = "\<lparr>buffer = [5, 6, 7, 0], capacity = 4, writeIndex = 3, readIndex = 3\<rparr>"]
    by simp
qed

text \<open>
  Claim C8 (fresh and reset state). For every capacity of at least 2, the constructor
  returns a buffer when the allocation is served and throws otherwise. The buffer that it
  returns, and the buffer after \<^verbatim>\<open>reset()\<close> in any reachable state, has both
  cursors at 0 and a storage of \<open>capacity\<close> zero bytes, so that nothing written before
  is left; \<^verbatim>\<open>availableRead()\<close> is 0 and \<^verbatim>\<open>availableWrite()\<close> is \<open>capacity - 1\<close>. The
  reset is defined.
\<close>

theorem fresh_and_reset_state:
  assumes "2 \<le> cap"
  shows "CircularBuffer_new ok raw cap =
           (if ok \<and> unat cap \<le> PTRDIFF_MAX
            then Inr \<lparr>buffer = replicate (unat cap) 0, capacity = cap,
                       writeIndex = 0, readIndex = 0\<rparr>
            else Inl BadAlloc) \<and>
         (CircularBuffer_new ok raw cap = Inr cb \<longrightarrow>
            writeIndex cb = 0 \<and> readIndex cb = 0 \<and> capacity cb = cap \<and>
            buffer cb = replicate (unat cap) 0 \<and>
            availableRead cb = 0 \<and> unat (availableWrite cb) = unat cap - 1) \<and>
         (reachable st \<and> capacity st = cap \<longrightarrow>
            (case reset st of
               Inl e \<Rightarrow> False
             | Inr cb' \<Rightarrow>
                 writeIndex cb' = 0 \<and> readIndex cb' = 0 \<and> capacity cb' = cap \<and>
                 buffer cb' = replicate (unat cap) 0 \<and>
                 availableRead cb' = 0 \<and> unat (availableWrite cb') = unat cap - 1))"
proof -
  have one: "1 \<le> cap" using assms by (simp add: word_le_nat_alt)
  then have u: "unat (cap - 1) = unat cap - 1" by (simp add: unat_sub)
  have new: "CircularBuffer_new ok raw cap =
           (if ok \<and> unat cap \<le> PTRDIFF_MAX
            then Inr \<lparr>buffer = replicate (unat cap) 0, capacity = cap,
                       writeIndex = 0, readIndex = 0\<rparr>
            else Inl BadAlloc)"
    by (simp add: CircularBuffer_new_def posix_memalign_def memset_def)
  show ?thesis
    using u new by (auto simp: CircularBuffer_new_Inr reset_explicit[OF reachable_invariant]
        availableRead_def availableWrite_def)
qed

text \<open>An instance of C8: capacity 8, and a reset of the buffer that holds three bytes.\<close>

theorem fresh_and_reset_state_witness:
  "(2::size_t) \<le> 8 \<and>
   CircularBuffer_new True (\<lambda>_. 9) 8 =
     Inr \<lparr>buffer = [0, 0, 0, 0, 0, 0, 0, 0], capacity = 8, writeIndex = 0, readIndex = 0\<rparr> \<and>
   availableRead
     \<lparr>buffer = [0, 0, 0, 0, 0, 0, 0, 0], capacity = 8, writeIndex = 0, readIndex = 0\<rparr> = 0 \<and>
   unat (availableWrite
     \<lparr>buffer = [0, 0, 0, 0, 0, 0, 0, 0], capacity = 8, writeIndex = 0, readIndex = 0\<rparr>) = 7 \<and>
   reachable \<lparr>buffer = [1, 2, 3, 0, 0, 0, 0, 0], capacity = 8, writeIndex = 3, readIndex = 0\<rparr> \<and>
   (case reset \<lparr>buffer = [1, 2, 3, 0, 0, 0, 0, 0], capacity = 8, writeIndex = 3, readIndex = 0\<rparr>
    of Inl e \<Rightarrow> False
     | Inr cb' \<Rightarrow> writeIndex cb' = 0 \<and> readIndex cb' = 0 \<and>
         buffer cb' = [0, 0, 0, 0, 0, 0, 0, 0] \<and> availableRead cb' = 0 \<and>
         unat (availableWrite cb') = 7)"
proof -
  have two: "(2::size_t) \<le> 8" by simp
  have new: "CircularBuffer_new True (\<lambda>_. 9) 8 =
     Inr \<lparr>buffer = [0, 0, 0, 0, 0, 0, 0, 0], capacity = 8, writeIndex = 0, readIndex = 0\<rparr>"
    by (simp add: CircularBuffer_new_def posix_memalign_def memset_def PTRDIFF_MAX_def
        replicate_eight)
  have a: "availableRead
       \<lparr>buffer = [0, 0, 0, 0, 0, 0, 0, 0], capacity = 8, writeIndex = 0, readIndex = 0\<rparr> = 0 \<and>
     unat (availableWrite
       \<lparr>buffer = [0, 0, 0, 0, 0, 0, 0, 0], capacity = 8, writeIndex = 0, readIndex = 0\<rparr>) = 7"
    using fresh_and_reset_state[OF two, where ok = True and raw = "\<lambda>_. 9" and
        cb = "\<lparr>buffer = [0, 0, 0, 0, 0, 0, 0, 0], capacity = 8, writeIndex = 0, readIndex = 0\<rparr>",
        THEN conjunct2, THEN conjunct1, rule_format, OF new]
    by (simp add: replicate_eight)
  have b: "case reset
        \<lparr>buffer = [1, 2, 3, 0, 0, 0, 0, 0], capacity = 8, writeIndex = 3, readIndex = 0\<rparr>
    of Inl e \<Rightarrow> False
     | Inr cb' \<Rightarrow> writeIndex cb' = 0 \<and> readIndex cb' = 0 \<and>
         buffer cb' = [0, 0, 0, 0, 0, 0, 0, 0] \<and> availableRead cb' = 0 \<and>
         unat (availableWrite cb') = 7"
    using fresh_and_reset_state[OF two, where
        st = "\<lparr>buffer = [1, 2, 3, 0, 0, 0, 0, 0], capacity = 8, writeIndex = 3, readIndex = 0\<rparr>",
        THEN conjunct2, THEN conjunct2, rule_format] reachable_three
    by (simp add: replicate_eight split: sum.splits)
  show ?thesis using two new a b reachable_three by simp
qed

text \<open>
  Claim C10 (observers). \<^verbatim>\<open>availableRead()\<close> and \<^verbatim>\<open>availableWrite()\<close> hand back the
  state they were called in, in every state, and any sequence of such calls returns for
  each call the value that this one state determines: two consecutive calls of the same
  observer return equal values.
\<close>

theorem observers_are_pure:
  "exec AvailableRead cb = Inr (cb, Available (availableRead cb)) \<and>
   exec AvailableWrite cb = Inr (cb, Available (availableWrite cb)) \<and>
   ((\<forall>c \<in> set cs. observer c) \<longrightarrow>
      run cs cb =
        Inr (cb, map (\<lambda>c. if c = AvailableRead then Available (availableRead cb)
                          else Available (availableWrite cb)) cs))"
proof -
  have "(\<forall>c \<in> set cs. observer c) \<Longrightarrow>
      run cs cb =
        Inr (cb, map (\<lambda>c. if c = AvailableRead then Available (availableRead cb)
                          else Available (availableWrite cb)) cs)"
  proof (induction cs)
    case Nil
    then show ?case by simp
  next
    case (Cons c cs)
    then have "observer c" by simp
    then show ?case using Cons by (cases c) simp_all
  qed
  then show ?thesis by simp
qed

text \<open>An instance of C10: each observer called twice in a row.\<close>

theorem observers_are_pure_witness:
  "observer AvailableRead \<and> observer AvailableWrite \<and>
   run [AvailableRead, AvailableRead, AvailableWrite, AvailableWrite]
     \<lparr>buffer = [1, 2, 3, 0, 0, 0, 0, 0], capacity = 8, writeIndex = 3, readIndex = 0\<rparr> =
   Inr (\<lparr>buffer = [1, 2, 3, 0, 0, 0, 0, 0], capacity = 8, writeIndex = 3, readIndex = 0\<rparr>,
        [Available 3, Available 3, Available 4, Available 4])"
proof -
  have h: "\<forall>c \<in> set [AvailableRead, AvailableRead, AvailableWrite, AvailableWrite]. observer c"
    by simp
  show ?thesis
    using h observers_are_pure[of
        "\<lparr>buffer = [1, 2, 3, 0, 0, 0, 0, 0], capacity = 8, writeIndex = 3, readIndex = 0\<rparr>"
        "[AvailableRead, AvailableRead, AvailableWrite, AvailableWrite]"]
    by (simp add: availableRead_def availableWrite_def)
qed

end
